theory Spec2Isabelle
  imports Complex_Main "HOL-Library.AList" "HOL-Library.Multiset"
begin

section \<open>C4-WSRS: reverse substitution of abbreviations\<close>

text \<open>
  A shallow embedding of \<^verbatim>\<open>tensorflow_datasets/text/c4_wsrs/c4_wsrs_utils.py\<close> and of the
  configuration and dictionary loading code of \<^verbatim>\<open>c4_wsrs.py\<close>.

  Text is the list of its Unicode code points, and \<^verbatim>\<open>str.isalnum\<close> beyond ASCII is read
  from a table that the functions take as a parameter. A Python \<^verbatim>\<open>dict\<close> is an
  association list in insertion order, written with \<^const>\<open>AList.update\<close> and read with
  \<^const>\<open>map_of\<close>. Exceptions are values of the type \<open>error\<close>; a generator is the list of
  what it yields.
\<close>

subsection \<open>Data model\<close>

datatype error = IndexError | KeyError | ValueError

text \<open>
  A Python \<^verbatim>\<open>str\<close> is the list of its Unicode code points. \<open>lit\<close> gives the code points of
  an ASCII literal.
\<close>

type_synonym codepoint = nat

type_synonym str = "codepoint list"

definition lit :: "string \<Rightarrow> str" where
  "lit s = map of_char s"

type_synonym replacement = "str \<times> str"

type_synonym dictionary = "(str \<times> str list) list"

type_synonym index_to_pairs = "(nat \<times> replacement list) list"

record WSRSFeatures =
  original_snippet :: str
  abbreviated_snippet :: str

type_synonym keyed_features = "str \<times> WSRSFeatures"

subsection \<open>Strings\<close>

definition apostrophe :: codepoint where
  "apostrophe = 39"

definition space :: codepoint where
  "space = 32"

text \<open>
  \<^verbatim>\<open>c.isalnum()\<close> for one character. On ASCII these are the digits and the letters. From
  code point 128 on the answer is that of the Unicode database of the Python interpreter,
  which is not part of the sources: it is the parameter \<open>db\<close>, and nothing is assumed of it.
\<close>

type_synonym unicode_db = "codepoint \<Rightarrow> bool"

definition isalnum :: "unicode_db \<Rightarrow> codepoint \<Rightarrow> bool" where
  "isalnum db c =
     (if c < 128
      then (48 \<le> c \<and> c \<le> 57) \<or> (65 \<le> c \<and> c \<le> 90) \<or> (97 \<le> c \<and> c \<le> 122)
      else db c)"

text \<open>\<^verbatim>\<open>s[i]\<close> for \<open>i \<ge> 0\<close>: IndexError out of range.\<close>

definition getitem :: "str \<Rightarrow> nat \<Rightarrow> error + codepoint" where
  "getitem s i = (if i < length s then Inr (s ! i) else Inl IndexError)"

text \<open>\<^verbatim>\<open>s[i:j]\<close> for \<open>0 \<le> i \<le> j\<close>: slices never raise, they are cut at the end of \<open>s\<close>.\<close>

definition slice :: "str \<Rightarrow> nat \<Rightarrow> nat \<Rightarrow> str" where
  "slice s i j = take (j - i) (drop i s)"

definition isalnum_at :: "unicode_db \<Rightarrow> str \<Rightarrow> nat \<Rightarrow> error + bool" where
  "isalnum_at db s i = (case getitem s i of Inl e \<Rightarrow> Inl e | Inr c \<Rightarrow> Inr (isalnum db c))"

text \<open>\<^verbatim>\<open>s.split(sep)\<close> for a one-character separator: every occurrence of the separator
  cuts, so empty pieces are kept and the empty string gives one empty piece.\<close>

fun split_on :: "codepoint \<Rightarrow> str \<Rightarrow> str list" where
  "split_on sep [] = [[]]"
| "split_on sep (c # cs) =
     (if c = sep then [] # split_on sep cs
      else (case split_on sep cs of
              [] \<Rightarrow> [[c]]
            | t # ts \<Rightarrow> (c # t) # ts))"

subsection \<open>The word-boundary matcher\<close>

text \<open>
  \<^verbatim>\<open>_snippet_contains_word_at_index(snippet, word, index)\<close>, for a position \<open>index \<ge> 0\<close>
  (the caller counts it up from 0). The four \<^verbatim>\<open>if\<close> statements are tried in the source's
  order; Python's \<^verbatim>\<open>and\<close> reads its right operand only when the left one holds.
\<close>

definition snippet_contains_word_at_index ::
  "unicode_db \<Rightarrow> str \<Rightarrow> str \<Rightarrow> nat \<Rightarrow> error + bool" where
  "snippet_contains_word_at_index db snippet word index =
     (if slice snippet index (index + length word) \<noteq> word then Inr False
      else
        (case (if index > 0 then isalnum_at db snippet (index - 1) else Inr False) of
           Inl e \<Rightarrow> Inl e
         | Inr True \<Rightarrow> Inr False
         | Inr False \<Rightarrow>
            (case (if index > 1 then
                     (case getitem snippet (index - 1) of
                        Inl e \<Rightarrow> Inl e
                      | Inr c \<Rightarrow> if c = apostrophe then isalnum_at db snippet (index - 2)
                                 else Inr False)
                   else Inr False) of
               Inl e \<Rightarrow> Inl e
             | Inr True \<Rightarrow> Inr False
             | Inr False \<Rightarrow>
                (case (if index + length word < length snippet
                       then isalnum_at db snippet (index + length word) else Inr False) of
                   Inl e \<Rightarrow> Inl e
                 | Inr True \<Rightarrow> Inr False
                 | Inr False \<Rightarrow> Inr True))))"

definition test_snippet :: str where
  "test_snippet = lit ''the -patient'' @ [apostrophe] @ lit ''s family is in the emergency room.''"

subsection \<open>Sampling a group of records\<close>

text \<open>
  \<^verbatim>\<open>sample_snippets_by_replacement(snippets_by_replacement, num_snippets_per_replacement)\<close>:
  the group is a replacement pair with its records; the limit is a Python \<^verbatim>\<open>int\<close>.
  The \<^verbatim>\<open>for\<close> loop yields a record, counts the limit down and breaks at \<open>limit \<le> 0\<close>.
\<close>

fun sample_loop :: "keyed_features list \<Rightarrow> int \<Rightarrow> keyed_features list" where
  "sample_loop [] limit = []"
| "sample_loop (x # xs) limit =
     x # (if limit - 1 \<le> 0 then [] else sample_loop xs (limit - 1))"

definition sample_snippets_by_replacement ::
  "replacement \<times> keyed_features list \<Rightarrow> int \<Rightarrow> keyed_features list" where
  "sample_snippets_by_replacement snippets_by_replacement num =
     (let limit = num
      in if limit = 0 then []
         else sample_loop (snd snippets_by_replacement) limit)"

subsection \<open>The builder configuration\<close>

text \<open>
  \<^verbatim>\<open>C4WSRSConfig.__init__\<close> calls the constructor of its base class with the name and the
  keyword arguments, then stores its three parameters. The base class
  \<^verbatim>\<open>tfds.core.BuilderConfig\<close> is not part of the sources at hand: its constructor is the
  parameter \<open>super_init\<close>, which sees neither of the three values.
\<close>

record 'b C4WSRSConfig =
  base :: 'b
  max_sentences_per_snippet :: int
  abbreviation_rate :: real
  num_snippets_per_replacement :: int

definition C4WSRSConfig_init ::
  "(str \<Rightarrow> 'kw \<Rightarrow> 'e + 'b) \<Rightarrow> str \<Rightarrow> int \<Rightarrow> real \<Rightarrow> int \<Rightarrow> 'kw \<Rightarrow> 'e + 'b C4WSRSConfig" where
  "C4WSRSConfig_init super_init name max_sentences rate num_snippets kwargs =
     (case super_init name kwargs of
        Inl e \<Rightarrow> Inl e
      | Inr b \<Rightarrow> Inr \<lparr>base = b,
                     max_sentences_per_snippet = max_sentences,
                     abbreviation_rate = rate,
                     num_snippets_per_replacement = num_snippets\<rparr>)"

text \<open>A base constructor that accepts every name and keeps it, for concrete configurations.\<close>

definition accepting_super_init :: "str \<Rightarrow> unit \<Rightarrow> error + str" where
  "accepting_super_init name kwargs = Inr name"

subsection \<open>Loading the dictionary\<close>

text \<open>
  \<^verbatim>\<open>_convert_abbrev_expansion_table_to_dict(df)\<close>: the rows of the table are pairs of an
  abbreviation and an expansion. A missing abbreviation gets the empty list first; the
  expansion is appended when it is not in the list yet.
\<close>

fun convert_loop :: "(str \<times> str) list \<Rightarrow> dictionary \<Rightarrow> error + dictionary" where
  "convert_loop [] abbreviation_expansions = Inr abbreviation_expansions"
| "convert_loop ((abbreviation, expansion) # rows) abbreviation_expansions =
     (let d1 = (if map_of abbreviation_expansions abbreviation = None
                then AList.update abbreviation [] abbreviation_expansions
                else abbreviation_expansions)
      in case map_of d1 abbreviation of
           None \<Rightarrow> Inl KeyError
         | Some expansions \<Rightarrow>
             convert_loop rows
               (if expansion \<notin> set expansions
                then AList.update abbreviation (expansions @ [expansion]) d1
                else d1))"

definition convert_abbrev_expansion_table_to_dict ::
  "(str \<times> str) list \<Rightarrow> error + dictionary" where
  "convert_abbrev_expansion_table_to_dict df = convert_loop df []"

text \<open>
  The loop of \<^verbatim>\<open>C4WSRS._split_generators\<close> over the rows of the CSV file, each a list of
  fields. \<^verbatim>\<open>abbrev, exp = row\<close> raises ValueError unless the row has two fields. The
  dictionary is a \<^verbatim>\<open>defaultdict(list)\<close>: reading a missing key gives the empty list, and
  the expansion is appended to what was read.
\<close>

definition defaultdict_get :: "dictionary \<Rightarrow> str \<Rightarrow> str list" where
  "defaultdict_get d k = (case map_of d k of None \<Rightarrow> [] | Some v \<Rightarrow> v)"

fun split_generators_loop :: "str list list \<Rightarrow> dictionary \<Rightarrow> error + dictionary" where
  "split_generators_loop [] d = Inr d"
| "split_generators_loop (row # rows) d =
     (case row of
        [abbrev, exp'] \<Rightarrow>
          split_generators_loop rows (AList.update abbrev (defaultdict_get d abbrev @ [exp']) d)
      | _ \<Rightarrow> Inl ValueError)"

definition split_generators_dict :: "str list list \<Rightarrow> error + dictionary" where
  "split_generators_dict reader = split_generators_loop reader []"

subsection \<open>Finding the expansions of a snippet\<close>

text \<open>
  \<^verbatim>\<open>_get_dictionary_pairs(dictionary)\<close>: the pairs of an abbreviation and one of its
  expansions, in the order of the dictionary and of each list.
\<close>

definition get_dictionary_pairs :: "dictionary \<Rightarrow> replacement list" where
  "get_dictionary_pairs d =
     concat (map (\<lambda>(abbreviation, expansions).
                    map (\<lambda>expansion. (abbreviation, expansion)) expansions) d)"

text \<open>
  The \<^verbatim>\<open>for\<close> loop of \<^verbatim>\<open>_extract_abbreviation_expansion_pairs\<close> at one position: the
  pairs whose expansion the matcher accepts there, in the order of the dictionary.
\<close>

fun matching_pairs ::
  "unicode_db \<Rightarrow> str \<Rightarrow> nat \<Rightarrow> replacement list \<Rightarrow> error + replacement list" where
  "matching_pairs db snippet snippet_idx [] = Inr []"
| "matching_pairs db snippet snippet_idx ((abbreviation, expansion) # rest) =
     (case snippet_contains_word_at_index db snippet expansion snippet_idx of
        Inl e \<Rightarrow> Inl e
      | Inr found \<Rightarrow>
          (case matching_pairs db snippet snippet_idx rest of
             Inl e \<Rightarrow> Inl e
           | Inr pairs \<Rightarrow> Inr (if found then (abbreviation, expansion) # pairs else pairs)))"

text \<open>The \<^verbatim>\<open>while\<close> loop over the positions of the snippet.\<close>

function extract_loop ::
  "unicode_db \<Rightarrow> str \<Rightarrow> dictionary \<Rightarrow> nat \<Rightarrow> index_to_pairs \<Rightarrow> error + index_to_pairs" where
  "extract_loop db snippet d snippet_idx index_to_pairs =
     (if snippet_idx < length snippet then
        (case matching_pairs db snippet snippet_idx (get_dictionary_pairs d) of
           Inl e \<Rightarrow> Inl e
         | Inr pairs \<Rightarrow>
             extract_loop db snippet d (snippet_idx + 1)
               (if pairs \<noteq> [] then AList.update snippet_idx pairs index_to_pairs
                else index_to_pairs))
      else Inr index_to_pairs)"
  by pat_completeness auto
termination
  by (relation "measure (\<lambda>(db, snippet, d, snippet_idx, m). length snippet - snippet_idx)") auto

definition extract_abbreviation_expansion_pairs ::
  "unicode_db \<Rightarrow> str \<Rightarrow> dictionary \<Rightarrow> error + index_to_pairs" where
  "extract_abbreviation_expansion_pairs db snippet d = extract_loop db snippet d 0 []"

subsection \<open>Random draws\<close>

text \<open>
  The outcomes of the random draws are given from outside: \<open>shuffle r k\<close> is what the
  \<open>k\<close>-th call of \<^verbatim>\<open>random.shuffle\<close> makes of a list, and \<open>uniform r k\<close> is the value of
  the \<open>k\<close>-th call of \<^verbatim>\<open>np.random.uniform(0, 1)\<close>. A shuffle permutes its list and the
  uniform draw lies in \<open>[0, 1)\<close>.
\<close>

record rng =
  shuffle :: "nat \<Rightarrow> replacement list \<Rightarrow> replacement list"
  uniform :: "nat \<Rightarrow> real"

definition valid_rng :: "rng \<Rightarrow> bool" where
  "valid_rng r =
     ((\<forall>k xs. mset (shuffle r k xs) = mset xs) \<and> (\<forall>k. 0 \<le> uniform r k \<and> uniform r k < 1))"

subsection \<open>Substitution\<close>

text \<open>
  The \<^verbatim>\<open>while\<close> loop of \<^verbatim>\<open>_abbreviate_snippet\<close>. The cursor moves by the length of the
  expansion, which may be 0, so the loop need not end: \<open>None\<close> is a run that does not
  return. \<^verbatim>\<open>random.shuffle\<close> shuffles the list inside the dictionary, which is written back;
  \<^verbatim>\<open>pairs_and_counts[0]\<close> raises IndexError on an empty list. \<open>draws\<close> counts the visits
  of a matched position, which draw once from each generator.
\<close>

partial_function (option) abbreviate_loop ::
  "str \<Rightarrow> real \<Rightarrow> rng \<Rightarrow> index_to_pairs \<Rightarrow> nat \<Rightarrow> nat \<Rightarrow> str \<Rightarrow> replacement list
     \<Rightarrow> (error + str \<times> replacement list) option" where
  "abbreviate_loop snippet rate r index_to_pairs draws snippet_idx abbreviated_text replacements =
     (if snippet_idx < length snippet then
        (case map_of index_to_pairs snippet_idx of
           Some pairs_and_counts \<Rightarrow>
             (case shuffle r draws pairs_and_counts of
                [] \<Rightarrow> Some (Inl IndexError)
              | (abbreviation, expansion) # others \<Rightarrow>
                  if uniform r draws < rate
                  then abbreviate_loop snippet rate r
                         (AList.update snippet_idx ((abbreviation, expansion) # others) index_to_pairs)
                         (draws + 1) (snippet_idx + length expansion)
                         (abbreviated_text @ abbreviation)
                         (replacements @ [(abbreviation, expansion)])
                  else abbreviate_loop snippet rate r
                         (AList.update snippet_idx ((abbreviation, expansion) # others) index_to_pairs)
                         (draws + 1) (snippet_idx + 1)
                         (abbreviated_text @ [snippet ! snippet_idx]) replacements)
         | None \<Rightarrow>
             abbreviate_loop snippet rate r index_to_pairs draws (snippet_idx + 1)
               (abbreviated_text @ [snippet ! snippet_idx]) replacements)
      else Some (Inr (abbreviated_text, replacements)))"

declare abbreviate_loop.simps [code]

definition abbreviate_snippet ::
  "str \<Rightarrow> index_to_pairs \<Rightarrow> real \<Rightarrow> rng \<Rightarrow> (error + str \<times> replacement list) option" where
  "abbreviate_snippet snippet index_to_pairs rate r =
     abbreviate_loop snippet rate r index_to_pairs 0 0 [] []"

subsection \<open>Reverse substitution\<close>

text \<open>
  Lines 142 to 149 of \<^verbatim>\<open>reverse_substitution\<close>: the abbreviated snippet and the
  replacements; substitution is skipped when the snippet has no match.
\<close>

definition abbreviation_of ::
  "unicode_db \<Rightarrow> str \<Rightarrow> real \<Rightarrow> dictionary \<Rightarrow> rng
     \<Rightarrow> (error + str \<times> replacement list) option" where
  "abbreviation_of db snippet rate d r =
     (case extract_abbreviation_expansion_pairs db snippet d of
        Inl e \<Rightarrow> Some (Inl e)
      | Inr snippet_idx_to_pairs \<Rightarrow>
          if snippet_idx_to_pairs \<noteq> []
          then abbreviate_snippet snippet snippet_idx_to_pairs rate r
          else Some (Inr (snippet, [])))"

text \<open>The records that \<^verbatim>\<open>reverse_substitution\<close> yields, in order.\<close>

definition reverse_substitution ::
  "unicode_db \<Rightarrow> str \<times> str \<Rightarrow> real \<Rightarrow> dictionary \<Rightarrow> rng
     \<Rightarrow> (error + (replacement \<times> keyed_features) list) option" where
  "reverse_substitution db extracted_snippet rate d r =
     (case extracted_snippet of (key, snippet) \<Rightarrow>
        (case abbreviation_of db snippet rate d r of
           None \<Rightarrow> None
         | Some (Inl e) \<Rightarrow> Some (Inl e)
         | Some (Inr (abbreviated, replacements)) \<Rightarrow>
             if length (split_on space abbreviated) < 3 then Some (Inr [])
             else
               (let features = \<lparr>original_snippet = snippet, abbreviated_snippet = abbreviated\<rparr>
                in Some (Inr ((if replacements = [] then [(([], []), (key, features))] else [])
                              @ map (\<lambda>replacement. (replacement, (key, features)))
                                  replacements)))))"

subsection \<open>Example data and predicates of the statements\<close>

definition example_group :: "replacement \<times> keyed_features list" where
  "example_group =
     ((lit ''pt'', lit ''patient''),
      [(lit ''k0'', \<lparr>original_snippet = lit ''a patient b'', abbreviated_snippet = lit ''a pt b''\<rparr>),
       (lit ''k1'', \<lparr>original_snippet = lit ''the patient c'', abbreviated_snippet = lit ''the pt c''\<rparr>),
       (lit ''k2'', \<lparr>original_snippet = lit ''d e patient'', abbreviated_snippet = lit ''d e pt''\<rparr>)])"

text \<open>No abbreviation of the dictionary has an expansion twice.\<close>

definition distinct_expansions :: "dictionary \<Rightarrow> bool" where
  "distinct_expansions d = (\<forall>k v. map_of d k = Some v \<longrightarrow> distinct v)"

text \<open>
  The expansions of one abbreviation in the order in which they are first seen, each once.
\<close>

definition append_new :: "str list \<Rightarrow> str \<Rightarrow> str list" where
  "append_new es e = (if e \<in> set es then es else es @ [e])"

definition first_seen :: "str list \<Rightarrow> str list" where
  "first_seen es = foldl append_new [] es"

text \<open>
  The examples are ASCII text, for which the Unicode database is never read. Where a
  closed statement has to name a database, it is the one without alphanumeric characters
  from code point 128 on.
\<close>

definition example_db :: unicode_db where
  "example_db c = False"

text \<open>Draws that leave every list as it is and always draw 0.\<close>

definition rng0 :: rng where
  "rng0 = \<lparr>shuffle = (\<lambda>k xs. xs), uniform = (\<lambda>k. 0)\<rparr>"

definition example_snippet :: str where
  "example_snippet = lit ''the patient is in the emergency room.''"

definition example_dictionary :: dictionary where
  "example_dictionary = [(lit ''pt'', [lit ''patient'']), (lit ''er'', [lit ''emergency room''])]"

definition test_key :: str where
  "test_key = lit ''url=test/url.com,snippet_id=0''"

definition tab :: codepoint where
  "tab = 9"

text \<open>
  The tokens of the specification's wording of the filter, for comparison with the split
  on spaces that the code makes: the maximal runs of characters that are not whitespace.
\<close>

definition is_whitespace :: "codepoint \<Rightarrow> bool" where
  "is_whitespace c =
     ((9 \<le> c \<and> c \<le> 13) \<or> (28 \<le> c \<and> c \<le> 32) \<or> c = 133 \<or> c = 160 \<or> c = 5760
      \<or> (8192 \<le> c \<and> c \<le> 8202) \<or> c = 8232 \<or> c = 8233 \<or> c = 8239 \<or> c = 8287
      \<or> c = 12288)"

fun whitespace_split :: "str \<Rightarrow> str \<Rightarrow> str list" where
  "whitespace_split token [] = (if token = [] then [] else [token])"
| "whitespace_split token (c # cs) =
     (if is_whitespace c
      then (if token = [] then whitespace_split [] cs else token # whitespace_split [] cs)
      else whitespace_split (token @ [c]) cs)"

definition whitespace_tokens :: "str \<Rightarrow> str list" where
  "whitespace_tokens s = whitespace_split [] s"

definition tab_snippet :: str where
  "tab_snippet = lit ''the'' @ [tab] @ lit ''patient'' @ [tab] @ lit ''sleeps''"

definition tab_abbreviated :: str where
  "tab_abbreviated = lit ''the'' @ [tab] @ lit ''pt'' @ [tab] @ lit ''sleeps''"

text \<open>
  Every list of the match map is non-empty and each of its pairs has the property \<open>P\<close> at
  its position.
\<close>

definition all_pairs :: "(nat \<Rightarrow> replacement \<Rightarrow> bool) \<Rightarrow> index_to_pairs \<Rightarrow> bool" where
  "all_pairs P m = (\<forall>i ps. map_of m i = Some ps \<longrightarrow> ps \<noteq> [] \<and> (\<forall>p\<in>set ps. P i p))"

subsection \<open>Properties of the matcher\<close>

lemma matcher_in_range:
  assumes "index \<le> length snippet"
  shows "snippet_contains_word_at_index db snippet word index =
     Inr (slice snippet index (index + length word) = word
          \<and> (index = 0 \<or> \<not> isalnum db (snippet ! (index - 1)))
          \<and> \<not> (1 < index \<and> snippet ! (index - 1) = apostrophe \<and> isalnum db (snippet ! (index - 2)))
          \<and> (index + length word = length snippet \<or> \<not> isalnum db (snippet ! (index + length word))))"
proof (cases "slice snippet index (index + length word) = word")
  case False
  then show ?thesis by (simp add: snippet_contains_word_at_index_def)
next
  case True
  then have "length word = min (length snippet - index) (length word)"
    by (metis slice_def add_diff_cancel_left' length_take length_drop min.commute)
  then have fits: "index + length word \<le> length snippet"
    using assms by linarith
  show ?thesis
    using True assms fits
    by (cases "index + length word = length snippet")
       (auto simp: snippet_contains_word_at_index_def isalnum_at_def getitem_def
             split: bool.splits)
qed

lemma matcher_raises_beyond_end:
  "length snippet < index \<Longrightarrow> snippet_contains_word_at_index db snippet [] index = Inl IndexError"
proof -
  assume beyond: "length snippet < index"
  then have "0 < index" and "\<not> index - 1 < length snippet"
    by simp_all
  then show ?thesis
    by (simp add: snippet_contains_word_at_index_def slice_def isalnum_at_def getitem_def)
qed

text \<open>
  Claim C1. For a snippet \<open>s\<close>, a word \<open>w\<close> and a position \<open>i\<close> of \<open>s\<close> (from 0 up to and
  including its length), the matcher accepts exactly when \<open>s[i:i+len(w)]\<close> is \<open>w\<close>, the
  character before \<open>i\<close> (if any) is not alphanumeric, it is not the case that \<open>i > 1\<close>, the
  character before is an apostrophe and the one before that is alphanumeric, and the match
  ends the snippet or is followed by a character that is not alphanumeric; alphanumeric is
  what \<^verbatim>\<open>str.isalnum\<close> says, for every Unicode database. In the snippet
  \<open>the -patient's family is in the emergency room.\<close> the word \<open>patient\<close> matches at 5,
  \<open>s\<close> does not match at 13 and \<open>fam\<close> does not match at 15.
\<close>

theorem matcher_accepts_iff:
  "(\<forall>s w i. i \<le> length s \<longrightarrow>
      (snippet_contains_word_at_index db s w i = Inr True) =
        (slice s i (i + length w) = w
         \<and> (i = 0 \<or> \<not> isalnum db (s ! (i - 1)))
         \<and> \<not> (1 < i \<and> s ! (i - 1) = apostrophe \<and> isalnum db (s ! (i - 2)))
         \<and> (i + length w = length s \<or> \<not> isalnum db (s ! (i + length w)))))
   \<and> snippet_contains_word_at_index db test_snippet (lit ''patient'') 5 = Inr True
   \<and> snippet_contains_word_at_index db test_snippet (lit ''s'') 13 = Inr False
   \<and> snippet_contains_word_at_index db test_snippet (lit ''fam'') 15 = Inr False"
proof -
  have len: "length test_snippet = 47"
    by (simp add: test_snippet_def lit_def)
  have a: "snippet_contains_word_at_index db test_snippet (lit ''patient'') 5 = Inr True"
    by (simp add: matcher_in_range len)
       (simp add: test_snippet_def lit_def slice_def isalnum_def apostrophe_def)
  have b: "snippet_contains_word_at_index db test_snippet (lit ''s'') 13 = Inr False"
    by (simp add: matcher_in_range len)
       (simp add: test_snippet_def lit_def slice_def isalnum_def apostrophe_def)
  have c: "snippet_contains_word_at_index db test_snippet (lit ''fam'') 15 = Inr False"
    by (simp add: matcher_in_range len)
       (simp add: test_snippet_def lit_def slice_def isalnum_def apostrophe_def)
  show ?thesis
    using a b c by (simp add: matcher_in_range)
qed

theorem matcher_accepts_iff_witness:
  "(15::nat) \<le> length test_snippet
   \<and> snippet_contains_word_at_index example_db test_snippet (lit ''family'') 15 = Inr True"
proof -
  have len: "length test_snippet = 47"
    by (simp add: test_snippet_def lit_def)
  have "(15::nat) \<le> length test_snippet"
    by (simp add: len)
  moreover from this
  have "(snippet_contains_word_at_index example_db test_snippet (lit ''family'') 15 = Inr True) =
        (slice test_snippet 15 (15 + length (lit ''family'')) = lit ''family''
         \<and> ((15::nat) = 0 \<or> \<not> isalnum example_db (test_snippet ! (15 - 1)))
         \<and> \<not> (1 < (15::nat) \<and> test_snippet ! (15 - 1) = apostrophe
               \<and> isalnum example_db (test_snippet ! (15 - 2)))
         \<and> (15 + length (lit ''family'') = length test_snippet
             \<or> \<not> isalnum example_db (test_snippet ! (15 + length (lit ''family'')))))"
    using matcher_accepts_iff by blast
  ultimately show ?thesis
    by (simp add: len) (simp add: test_snippet_def lit_def slice_def isalnum_def apostrophe_def)
qed

subsection \<open>Properties of the match map\<close>

lemma all_pairs_empty: "all_pairs P []"
  by (simp add: all_pairs_def)

lemma all_pairs_update:
  assumes "all_pairs P m" and "ps \<noteq> []" and "\<forall>p\<in>set ps. P i p"
  shows "all_pairs P (AList.update i ps m)"
  unfolding all_pairs_def
proof (intro allI impI)
  fix j qs
  assume "map_of (AList.update i ps m) j = Some qs"
  then have "(j = i \<and> qs = ps) \<or> map_of m j = Some qs"
    by (cases "j = i") (simp_all add: update_conv')
  then show "qs \<noteq> [] \<and> (\<forall>p\<in>set qs. P j p)"
    using assms unfolding all_pairs_def by blast
qed

lemma all_pairs_lookup:
  "all_pairs P m \<Longrightarrow> map_of m i = Some ps \<Longrightarrow> ps \<noteq> [] \<and> (\<forall>p\<in>set ps. P i p)"
  unfolding all_pairs_def by blast

lemma all_pairs_shuffled:
  assumes "all_pairs P m" and "map_of m i = Some ps" and "mset qs = mset ps"
  shows "all_pairs P (AList.update i qs m)"
proof (rule all_pairs_update [OF assms(1)])
  have ps: "ps \<noteq> []" "\<forall>p\<in>set ps. P i p"
    using all_pairs_lookup [OF assms(1,2)] by simp_all
  show "qs \<noteq> []"
    using ps(1) assms(3) by (metis mset_zero_iff)
  show "\<forall>p\<in>set qs. P i p"
    using ps(2) mset_eq_setD [OF assms(3)] by simp
qed

lemma all_pairs_mono:
  "all_pairs P m \<Longrightarrow> (\<And>i p. P i p \<Longrightarrow> Q i p) \<Longrightarrow> all_pairs Q m"
  unfolding all_pairs_def by blast

lemma matching_pairs_in_range:
  assumes "snippet_idx \<le> length snippet"
  shows "matching_pairs db snippet snippet_idx ps =
     Inr (filter (\<lambda>p. snippet_contains_word_at_index db snippet (snd p) snippet_idx = Inr True) ps)"
proof (induction ps)
  case Nil
  show ?case by simp
next
  case (Cons p ps)
  obtain a e where p: "p = (a, e)" by (cases p)
  obtain b where b: "snippet_contains_word_at_index db snippet e snippet_idx = Inr b"
    using matcher_in_range [OF assms] by blast
  show ?case
    by (simp add: p b Cons.IH)
qed

lemma matcher_accepts_fits:
  assumes "snippet_contains_word_at_index db snippet word index = Inr True"
  shows "index + length word \<le> length snippet \<or> (word = [] \<and> length snippet < index)"
proof (cases "index \<le> length snippet")
  case True
  have "slice snippet index (index + length word) = word"
    using assms by (auto simp: snippet_contains_word_at_index_def split: if_splits)
  then have "length word = min (length snippet - index) (length word)"
    by (metis slice_def add_diff_cancel_left' length_take length_drop min.commute)
  then show ?thesis using True by linarith
next
  case False
  have "slice snippet index (index + length word) = word"
    using assms by (auto simp: snippet_contains_word_at_index_def split: if_splits)
  then have "word = []"
    using False by (simp add: slice_def)
  then show ?thesis using False by simp
qed

lemma extract_loop_all_pairs:
  assumes step: "\<And>i p. i < length s \<Longrightarrow> p \<in> set (get_dictionary_pairs d) \<Longrightarrow>
                   snippet_contains_word_at_index db s (snd p) i = Inr True \<Longrightarrow> P i p"
  shows "all_pairs P m \<Longrightarrow> \<exists>m'. extract_loop db s d idx m = Inr m' \<and> all_pairs P m'"
proof (induction "length s - idx" arbitrary: idx m rule: less_induct)
  case less
  show ?case
  proof (cases "idx < length s")
    case False
    then show ?thesis
      using less.prems by (subst extract_loop.simps) simp
  next
    case True
    define ps where
      "ps = filter (\<lambda>p. snippet_contains_word_at_index db s (snd p) idx = Inr True)
              (get_dictionary_pairs d)"
    have mp: "matching_pairs db s idx (get_dictionary_pairs d) = Inr ps"
      using True by (simp add: matching_pairs_in_range ps_def)
    define m2 where "m2 = (if ps \<noteq> [] then AList.update idx ps m else m)"
    have "\<forall>p\<in>set ps. P idx p"
      using step True by (simp add: ps_def)
    then have "all_pairs P m2"
      using less.prems all_pairs_update [of P m ps idx] by (cases "ps = []") (simp_all add: m2_def)
    moreover have "length s - (idx + 1) < length s - idx"
      using True by simp
    ultimately obtain m' where "extract_loop db s d (idx + 1) m2 = Inr m'" "all_pairs P m'"
      using less.hyps by blast
    then show ?thesis
      using True by (subst extract_loop.simps) (simp add: mp m2_def)
  qed
qed

lemma extract_all_pairs:
  assumes "\<And>i p. i < length s \<Longrightarrow> p \<in> set (get_dictionary_pairs d) \<Longrightarrow>
                   snippet_contains_word_at_index db s (snd p) i = Inr True \<Longrightarrow> P i p"
  shows "\<exists>m. extract_abbreviation_expansion_pairs db s d = Inr m \<and> all_pairs P m"
proof -
  have "all_pairs P []" by (rule all_pairs_empty)
  then show ?thesis
    unfolding extract_abbreviation_expansion_pairs_def
    by (rule extract_loop_all_pairs [rotated]) (rule assms; assumption)
qed

subsection \<open>Properties of the substitution loop\<close>

lemma loop_done:
  "\<not> idx < length s \<Longrightarrow> abbreviate_loop s rate r m k idx acc reps = Some (Inr (acc, reps))"
  by (subst abbreviate_loop.simps) simp

lemma loop_unmatched:
  "idx < length s \<Longrightarrow> map_of m idx = None \<Longrightarrow>
   abbreviate_loop s rate r m k idx acc reps =
   abbreviate_loop s rate r m k (idx + 1) (acc @ [s ! idx]) reps"
  by (subst abbreviate_loop.simps) simp

lemma loop_raise:
  "idx < length s \<Longrightarrow> map_of m idx = Some ps \<Longrightarrow> shuffle r k ps = [] \<Longrightarrow>
   abbreviate_loop s rate r m k idx acc reps = Some (Inl IndexError)"
  by (subst abbreviate_loop.simps) simp

lemma loop_replace:
  "idx < length s \<Longrightarrow> map_of m idx = Some ps \<Longrightarrow> shuffle r k ps = (a, e) # others \<Longrightarrow>
   uniform r k < rate \<Longrightarrow>
   abbreviate_loop s rate r m k idx acc reps =
   abbreviate_loop s rate r (AList.update idx ((a, e) # others) m) (k + 1) (idx + length e)
     (acc @ a) (reps @ [(a, e)])"
  by (subst abbreviate_loop.simps) simp

lemma loop_keep:
  "idx < length s \<Longrightarrow> map_of m idx = Some ps \<Longrightarrow> shuffle r k ps = (a, e) # others \<Longrightarrow>
   \<not> uniform r k < rate \<Longrightarrow>
   abbreviate_loop s rate r m k idx acc reps =
   abbreviate_loop s rate r (AList.update idx ((a, e) # others) m) (k + 1) (idx + 1)
     (acc @ [s ! idx]) reps"
  by (subst abbreviate_loop.simps) simp

lemma valid_rng_shuffle: "valid_rng r \<Longrightarrow> mset (shuffle r k xs) = mset xs"
  unfolding valid_rng_def by blast

lemma valid_rng_uniform: "valid_rng r \<Longrightarrow> 0 \<le> uniform r k \<and> uniform r k < 1"
  unfolding valid_rng_def by blast

lemma valid_rng_shuffle_single: "valid_rng r \<Longrightarrow> shuffle r k [x] = [x]"
  using valid_rng_shuffle [of r k "[x]"] by (metis mset_single_iff_right)

text \<open>What a shuffle of a matched position leaves: a first pair with the property of the map.\<close>

lemma shuffled_head:
  assumes "valid_rng r" and "all_pairs P m" and "map_of m idx = Some ps"
  obtains a e others where "shuffle r k ps = (a, e) # others" and "P idx (a, e)"
    and "all_pairs P (AList.update idx ((a, e) # others) m)"
proof -
  have ms: "mset (shuffle r k ps) = mset ps"
    using assms(1) by (rule valid_rng_shuffle)
  have ps: "ps \<noteq> []" "\<forall>p\<in>set ps. P idx p"
    using all_pairs_lookup [OF assms(2,3)] by simp_all
  have "shuffle r k ps \<noteq> []"
    using ps(1) ms by (metis mset_zero_iff)
  then obtain a e others where sh: "shuffle r k ps = (a, e) # others"
    by (cases "shuffle r k ps") auto
  have "(a, e) \<in> set ps"
    using mset_eq_setD [OF ms] sh by auto
  then have "P idx (a, e)" using ps(2) by blast
  moreover have "all_pairs P (AList.update idx ((a, e) # others) m)"
    using all_pairs_shuffled [OF assms(2,3) ms] sh by simp
  ultimately show ?thesis using that sh by blast
qed

lemma loop_returns:
  assumes "valid_rng r"
  shows "all_pairs (\<lambda>i p. snd p \<noteq> []) m \<Longrightarrow>
         \<exists>t reps'. abbreviate_loop s rate r m k idx acc reps = Some (Inr (t, reps'))"
proof (induction "length s - idx" arbitrary: idx m k acc reps rule: less_induct)
  case less
  show ?case
  proof (cases "idx < length s")
    case False
    then show ?thesis by (simp add: loop_done)
  next
    case True
    show ?thesis
    proof (cases "map_of m idx")
      case None
      have "length s - (idx + 1) < length s - idx" using True by simp
      then show ?thesis
        using less.hyps [OF _ less.prems] by (simp add: loop_unmatched [OF True None])
    next
      case (Some ps)
      obtain a e others where sh: "shuffle r k ps = (a, e) # others"
        and e: "snd (a, e) \<noteq> []"
        and m': "all_pairs (\<lambda>i p. snd p \<noteq> []) (AList.update idx ((a, e) # others) m)"
        using shuffled_head [OF assms less.prems Some] by blast
      show ?thesis
      proof (cases "uniform r k < rate")
        case draw: True
        have "0 < length e" using e by simp
        then have "length s - (idx + length e) < length s - idx" using True by linarith
        then show ?thesis
          using less.hyps [OF _ m'] by (simp add: loop_replace [OF True Some sh draw])
      next
        case False
        have "length s - (idx + 1) < length s - idx" using True by simp
        then show ?thesis
          using less.hyps [OF _ m'] by (simp add: loop_keep [OF True Some sh False])
      qed
    qed
  qed
qed

lemma loop_not_longer:
  assumes "valid_rng r"
  shows "all_pairs (\<lambda>i p. snd p \<noteq> [] \<and> length (fst p) \<le> length (snd p)
                          \<and> i + length (snd p) \<le> length s) m \<Longrightarrow>
         idx \<le> length s \<Longrightarrow> length acc \<le> idx \<Longrightarrow>
         \<exists>t reps'. abbreviate_loop s rate r m k idx acc reps = Some (Inr (t, reps'))
                   \<and> length t \<le> length s"
proof (induction "length s - idx" arbitrary: idx m k acc reps rule: less_induct)
  case less
  let ?P = "\<lambda>i p. snd p \<noteq> [] \<and> length (fst p) \<le> length (snd p)
                  \<and> i + length (snd p) \<le> length s"
  show ?case
  proof (cases "idx < length s")
    case False
    then show ?thesis
      using less.prems by (simp add: loop_done)
  next
    case True
    have one: "length s - (idx + 1) < length s - idx" "idx + 1 \<le> length s"
      "length (acc @ [s ! idx]) \<le> idx + 1"
      using True less.prems(3) by simp_all
    show ?thesis
    proof (cases "map_of m idx")
      case None
      show ?thesis
        using less.hyps [OF one(1) less.prems(1) one(2,3)]
        by (simp add: loop_unmatched [OF True None])
    next
      case (Some ps)
      obtain a e others where sh: "shuffle r k ps = (a, e) # others"
        and e: "?P idx (a, e)"
        and m': "all_pairs ?P (AList.update idx ((a, e) # others) m)"
        using shuffled_head [OF assms less.prems(1) Some] by blast
      show ?thesis
      proof (cases "uniform r k < rate")
        case draw: True
        have "0 < length e" using e by simp
        then have "length s - (idx + length e) < length s - idx" using True by linarith
        moreover have "idx + length e \<le> length s" using e by simp
        moreover have "length (acc @ a) \<le> idx + length e"
          using e less.prems(3) by simp
        ultimately show ?thesis
          using less.hyps [OF _ m'] by (simp add: loop_replace [OF True Some sh draw])
      next
        case False
        show ?thesis
          using less.hyps [OF one(1) m' one(2,3)]
          by (simp add: loop_keep [OF True Some sh False])
      qed
    qed
  qed
qed

lemma loop_rate_zero:
  assumes "valid_rng r"
  shows "all_pairs (\<lambda>i p. True) m \<Longrightarrow>
         abbreviate_loop s 0 r m k idx acc reps = Some (Inr (acc @ drop idx s, reps))"
proof (induction "length s - idx" arbitrary: idx m k acc reps rule: less_induct)
  case less
  show ?case
  proof (cases "idx < length s")
    case False
    then show ?thesis by (simp add: loop_done)
  next
    case True
    have one: "length s - (idx + 1) < length s - idx"
      using True by simp
    have app: "(acc @ [s ! idx]) @ drop (idx + 1) s = acc @ drop idx s"
      using True by (simp add: Cons_nth_drop_Suc)
    show ?thesis
    proof (cases "map_of m idx")
      case None
      show ?thesis
        using less.hyps [OF one less.prems, of k "acc @ [s ! idx]" reps] app
        by (simp add: loop_unmatched [OF True None])
    next
      case (Some ps)
      obtain a e others where sh: "shuffle r k ps = (a, e) # others"
        and m': "all_pairs (\<lambda>i p. True) (AList.update idx ((a, e) # others) m)"
        using shuffled_head [OF assms less.prems Some] by blast
      have no: "\<not> uniform r k < 0"
        using valid_rng_uniform [OF assms, of k] by simp
      show ?thesis
        using less.hyps [OF one m', of "k + 1" "acc @ [s ! idx]" reps] app
        by (simp add: loop_keep [OF True Some sh no])
    qed
  qed
qed

lemma extract_nonempty_lists:
  "\<exists>m. extract_abbreviation_expansion_pairs db s d = Inr m \<and> all_pairs (\<lambda>i p. True) m"
  by (rule extract_all_pairs) simp

lemma abbreviation_of_rate_zero:
  assumes "valid_rng r"
  shows "abbreviation_of db s 0 d r = Some (Inr (s, []))"
proof -
  obtain m where m: "extract_abbreviation_expansion_pairs db s d = Inr m"
    "all_pairs (\<lambda>i p. True) m"
    using extract_nonempty_lists by blast
  show ?thesis
    using loop_rate_zero [OF assms m(2), of s 0 0 "[]" "[]"]
    by (simp add: abbreviation_of_def m(1) abbreviate_snippet_def)
qed

lemma abbreviation_of_total:
  assumes "valid_rng r" and "\<forall>p\<in>set (get_dictionary_pairs d). snd p \<noteq> []"
  shows "\<exists>t reps. abbreviation_of db s rate d r = Some (Inr (t, reps))"
proof -
  obtain m where m: "extract_abbreviation_expansion_pairs db s d = Inr m"
    "all_pairs (\<lambda>i p. snd p \<noteq> []) m"
    using extract_all_pairs [where P = "\<lambda>i p. snd p \<noteq> []"] assms(2) by blast
  show ?thesis
    using loop_returns [OF assms(1) m(2), of s rate 0 0 "[]" "[]"]
    by (cases "m = []") (simp_all add: abbreviation_of_def m(1) abbreviate_snippet_def)
qed

lemma split_on_length: "length (split_on sep s) = Suc (count_list s sep)"
  by (induction s) (auto split: list.splits)

text \<open>
  An empty expansion that matches stops the cursor: at rate 1 the loop takes the
  replacement again and again and never returns.
\<close>

lemma empty_expansion_loop_stuck:
  assumes "abbreviate_loop s rate r m k idx acc reps = Some y"
  shows "\<not> (s = [space] \<and> rate = 1 \<and> r = rng0 \<and> m = [(0, [(lit ''x'', [])])] \<and> idx = 0)"
proof (rule abbreviate_loop.raw_induct
    [where P = "\<lambda>s rate r m k idx acc reps y.
                  \<not> (s = [space] \<and> rate = 1 \<and> r = rng0 \<and> m = [(0, [(lit ''x'', [])])] \<and> idx = 0)",
     OF _ assms], goal_cases)
  case (1 loop s rate r m k idx acc reps y)
  show ?case
  proof
    assume stuck: "s = [space] \<and> rate = 1 \<and> r = rng0 \<and> m = [(0, [(lit ''x'', [])])] \<and> idx = 0"
    then have "loop s rate r m (k + 1) idx (acc @ lit ''x'') (reps @ [(lit ''x'', [])]) = Some y"
      using 1(2) by (simp add: rng0_def)
    from 1(1) [OF this] stuck show False by blast
  qed
qed

lemma empty_expansion_never_returns:
  "extract_abbreviation_expansion_pairs db [space] [(lit ''x'', [[]])] = Inr [(0, [(lit ''x'', [])])]
   \<and> abbreviate_snippet [space] [(0, [(lit ''x'', [])])] 1 rng0 = None"
proof -
  have "extract_abbreviation_expansion_pairs db [space] [(lit ''x'', [[]])] = Inr [(0, [(lit ''x'', [])])]"
    by code_simp
  moreover have "abbreviate_snippet [space] [(0, [(lit ''x'', [])])] 1 rng0 = None"
    using empty_expansion_loop_stuck [of "[space]" 1 rng0 "[(0, [(lit ''x'', [])])]" 0 0 "[]" "[]"]
    by (cases "abbreviate_snippet [space] [(0, [(lit ''x'', [])])] 1 rng0")
       (simp_all add: abbreviate_snippet_def)
  ultimately show ?thesis by simp
qed

subsection \<open>Properties of substitution and reverse substitution\<close>

text \<open>
  Claim C2. For the snippet \<open>the patient is in the emergency room.\<close> and the dictionary
  \<open>{pt: [patient], er: [emergency room]}\<close> the match map is
  \<open>{4: [(pt, patient)], 22: [(er, emergency room)]}\<close>, and substitution at rate 1 returns,
  whatever the draws, the text \<open>the pt is in the er.\<close> with the replacements
  \<open>(pt, patient), (er, emergency room)\<close> in this order.
\<close>

theorem example_match_map_and_substitution:
  assumes "valid_rng r"
  shows "extract_abbreviation_expansion_pairs db (lit ''the patient is in the emergency room.'')
           [(lit ''pt'', [lit ''patient'']), (lit ''er'', [lit ''emergency room''])] =
         Inr [(4, [(lit ''pt'', lit ''patient'')]), (22, [(lit ''er'', lit ''emergency room'')])]
       \<and> abbreviate_snippet (lit ''the patient is in the emergency room.'')
           [(4, [(lit ''pt'', lit ''patient'')]), (22, [(lit ''er'', lit ''emergency room'')])] 1 r =
         Some (Inr (lit ''the pt is in the er.'',
                    [(lit ''pt'', lit ''patient''), (lit ''er'', lit ''emergency room'')]))"
proof -
  have "extract_abbreviation_expansion_pairs db (lit ''the patient is in the emergency room.'')
           [(lit ''pt'', [lit ''patient'']), (lit ''er'', [lit ''emergency room''])] =
         Inr [(4, [(lit ''pt'', lit ''patient'')]), (22, [(lit ''er'', lit ''emergency room'')])]"
    by code_simp
  moreover have "abbreviate_snippet (lit ''the patient is in the emergency room.'')
           [(4, [(lit ''pt'', lit ''patient'')]), (22, [(lit ''er'', lit ''emergency room'')])] 1 r =
         Some (Inr (lit ''the pt is in the er.'',
                    [(lit ''pt'', lit ''patient''), (lit ''er'', lit ''emergency room'')]))"
    using assms
    by (simp add: abbreviate_snippet_def abbreviate_loop.simps lit_def
          valid_rng_shuffle_single valid_rng_uniform)
  ultimately show ?thesis by simp
qed

theorem example_match_map_and_substitution_witness:
  "valid_rng rng0
   \<and> abbreviate_snippet (lit ''the patient is in the emergency room.'')
        [(4, [(lit ''pt'', lit ''patient'')]), (22, [(lit ''er'', lit ''emergency room'')])] 1 rng0 =
      Some (Inr (lit ''the pt is in the er.'',
                 [(lit ''pt'', lit ''patient''), (lit ''er'', lit ''emergency room'')]))"
proof -
  have v: "valid_rng rng0"
    by (simp add: valid_rng_def rng0_def)
  show ?thesis
    using v example_match_map_and_substitution [OF v] by simp
qed

text \<open>
  The examples below are ASCII text: their results are the same for every Unicode database.
\<close>

lemma tab_snippet_any_database:
  "abbreviation_of db tab_snippet 1 example_dictionary rng0 =
     Some (Inr (tab_abbreviated, [(lit ''pt'', lit ''patient'')]))
   \<and> reverse_substitution db (test_key, tab_snippet) 1 example_dictionary rng0 = Some (Inr [])
   \<and> reverse_substitution db (test_key, tab_snippet) 0 example_dictionary rng0 = Some (Inr [])"
proof -
  have "abbreviation_of db tab_snippet 1 example_dictionary rng0 =
     Some (Inr (tab_abbreviated, [(lit ''pt'', lit ''patient'')]))"
    by code_simp
  moreover have
    "reverse_substitution db (test_key, tab_snippet) 1 example_dictionary rng0 = Some (Inr [])"
    by code_simp
  moreover have
    "reverse_substitution db (test_key, tab_snippet) 0 example_dictionary rng0 = Some (Inr [])"
    by code_simp
  ultimately show ?thesis by simp
qed

lemma longer_abbreviation_any_database:
  "extract_abbreviation_expansion_pairs db (lit ''a pt b'') [(lit ''patient'', [lit ''pt''])] =
     Inr [(2, [(lit ''patient'', lit ''pt'')])]"
  by code_simp

text \<open>
  Claim C4, as stated: with 3 or more whitespace-delimited tokens in the abbreviated text
  at least one record is yielded. The filter splits on the space character alone: the
  abbreviated text \<open>the<TAB>pt<TAB>sleeps\<close> has three tokens between whitespace and no
  space, and its snippet yields no record.
\<close>

theorem token_filter_whitespace_counterexample:
  "abbreviation_of example_db tab_snippet 1 example_dictionary rng0 =
     Some (Inr (tab_abbreviated, [(lit ''pt'', lit ''patient'')]))
   \<and> whitespace_tokens tab_abbreviated = [lit ''the'', lit ''pt'', lit ''sleeps'']
   \<and> reverse_substitution example_db (test_key, tab_snippet) 1 example_dictionary rng0 =
       Some (Inr [])"
proof -
  have "whitespace_tokens tab_abbreviated = [lit ''the'', lit ''pt'', lit ''sleeps'']"
    by (simp add: whitespace_tokens_def tab_abbreviated_def lit_def tab_def is_whitespace_def)
  then show ?thesis
    using tab_snippet_any_database [of example_db] by simp
qed

lemma reverse_substitution_records:
  assumes "abbreviation_of db s rate d r = Some (Inr (t, reps))"
  shows "reverse_substitution db (key, s) rate d r =
     Some (Inr (if length (split_on space t) < 3 then []
                else (if reps = []
                      then [(([], []), (key, \<lparr>original_snippet = s, abbreviated_snippet = t\<rparr>))]
                      else [])
                     @ map (\<lambda>p. (p, (key, \<lparr>original_snippet = s, abbreviated_snippet = t\<rparr>)))
                         reps))"
  by (simp add: reverse_substitution_def assms)

text \<open>
  Claim C4, amended. The pieces are those of a split on the space character, where every
  space cuts and empty pieces count, so there is one piece more than there are spaces.
  Whenever the abbreviated text of a snippet has fewer than 3 such pieces,
  \<^verbatim>\<open>reverse_substitution\<close> yields no record for it; with 3 or more it yields at least one.
  The abbreviated text exists for all draws when no expansion of the dictionary is empty.
\<close>

theorem token_filter_on_spaces:
  "(abbreviation_of db s rate d r = Some (Inr (t, reps)) \<longrightarrow>
      (\<exists>recs. reverse_substitution db (key, s) rate d r = Some (Inr recs)
         \<and> (length (split_on space t) < 3 \<longrightarrow> recs = [])
         \<and> (3 \<le> length (split_on space t) \<longrightarrow> recs \<noteq> [])))
   \<and> length (split_on space t) = count_list t space + 1
   \<and> (valid_rng r \<and> (\<forall>p\<in>set (get_dictionary_pairs d). snd p \<noteq> []) \<longrightarrow>
        (\<exists>t' reps'. abbreviation_of db s rate d r = Some (Inr (t', reps'))))"
proof (intro conjI impI)
  assume "abbreviation_of db s rate d r = Some (Inr (t, reps))"
  then show "\<exists>recs. reverse_substitution db (key, s) rate d r = Some (Inr recs)
         \<and> (length (split_on space t) < 3 \<longrightarrow> recs = [])
         \<and> (3 \<le> length (split_on space t) \<longrightarrow> recs \<noteq> [])"
    by (simp add: reverse_substitution_records)
next
  show "length (split_on space t) = count_list t space + 1"
    by (simp add: split_on_length)
next
  assume "valid_rng r \<and> (\<forall>p\<in>set (get_dictionary_pairs d). snd p \<noteq> [])"
  then show "\<exists>t' reps'. abbreviation_of db s rate d r = Some (Inr (t', reps'))"
    using abbreviation_of_total by blast
qed

theorem token_filter_on_spaces_witness:
  "abbreviation_of example_db example_snippet 1 example_dictionary rng0 =
     Some (Inr (lit ''the pt is in the er.'', [(lit ''pt'', lit ''patient''), (lit ''er'', lit ''emergency room'')]))
   \<and> 3 \<le> length (split_on space (lit ''the pt is in the er.''))
   \<and> valid_rng rng0 \<and> list_all (\<lambda>p. snd p \<noteq> []) (get_dictionary_pairs example_dictionary)
   \<and> (\<exists>recs. reverse_substitution example_db (test_key, example_snippet) 1 example_dictionary rng0 = Some (Inr recs)
         \<and> recs \<noteq> [])"
proof -
  have a: "abbreviation_of example_db example_snippet 1 example_dictionary rng0 =
     Some (Inr (lit ''the pt is in the er.'', [(lit ''pt'', lit ''patient''), (lit ''er'', lit ''emergency room'')]))"
    by code_simp
  have b: "3 \<le> length (split_on space (lit ''the pt is in the er.''))"
    by code_simp
  have c: "valid_rng rng0"
    by (simp add: valid_rng_def rng0_def)
  have d: "\<forall>p\<in>set (get_dictionary_pairs example_dictionary). snd p \<noteq> []"
    by (simp add: get_dictionary_pairs_def example_dictionary_def lit_def)
  have e: "list_all (\<lambda>p. snd p \<noteq> []) (get_dictionary_pairs example_dictionary)"
    using d by (simp add: list_all_iff)
  have "\<exists>recs. reverse_substitution example_db (test_key, example_snippet) 1 example_dictionary rng0 = Some (Inr recs)
         \<and> recs \<noteq> []"
    using a b
      token_filter_on_spaces [of example_db example_snippet 1 example_dictionary rng0 "(lit ''the pt is in the er.'')"
        "[(lit ''pt'', lit ''patient''), (lit ''er'', lit ''emergency room'')]" test_key]
    by blast
  then show ?thesis
    using a b c e by (intro conjI) assumption+
qed

text \<open>
  Claim C6, as stated: the abbreviated snippet is never longer than the snippet, for every
  dictionary. A dictionary may give an abbreviation that is longer than its expansion:
  with \<open>{patient: [pt]}\<close> the snippet \<open>a pt b\<close> becomes \<open>a patient b\<close>.
\<close>

theorem abbreviation_longer_counterexample:
  "extract_abbreviation_expansion_pairs example_db (lit ''a pt b'')
       [(lit ''patient'', [lit ''pt''])] =
     Inr [(2, [(lit ''patient'', lit ''pt'')])]
   \<and> abbreviate_snippet (lit ''a pt b'') [(2, [(lit ''patient'', lit ''pt'')])] 1 rng0 =
       Some (Inr (lit ''a patient b'', [(lit ''patient'', lit ''pt'')]))
   \<and> \<not> length (lit ''a patient b'') \<le> length (lit ''a pt b'')"
proof -
  have "extract_abbreviation_expansion_pairs example_db (lit ''a pt b'')
       [(lit ''patient'', [lit ''pt''])] =
     Inr [(2, [(lit ''patient'', lit ''pt'')])]"
    by (rule longer_abbreviation_any_database)
  moreover have "abbreviate_snippet (lit ''a pt b'') [(2, [(lit ''patient'', lit ''pt'')])] 1 rng0 =
       Some (Inr (lit ''a patient b'', [(lit ''patient'', lit ''pt'')]))"
    by code_simp
  ultimately show ?thesis by (simp add: lit_def)
qed

text \<open>
  Claim C6, amended. When every expansion of the dictionary is non-empty and no
  abbreviation is longer than an expansion of its own, then for every snippet, every rate
  and every outcome of the draws the substitution on the match map of the snippet returns,
  and the abbreviated snippet is not longer than the snippet.
\<close>

theorem abbreviation_not_longer:
  assumes "valid_rng r"
    and "\<forall>p\<in>set (get_dictionary_pairs d). snd p \<noteq> [] \<and> length (fst p) \<le> length (snd p)"
  shows "\<exists>m t reps. extract_abbreviation_expansion_pairs db s d = Inr m
           \<and> abbreviate_snippet s m rate r = Some (Inr (t, reps))
           \<and> length t \<le> length s"
proof -
  let ?P = "\<lambda>i p. snd p \<noteq> [] \<and> length (fst p) \<le> length (snd p)
                  \<and> i + length (snd p) \<le> length s"
  have "?P i p" if "i < length s" and "p \<in> set (get_dictionary_pairs d)"
    and "snippet_contains_word_at_index db s (snd p) i = Inr True" for i p
    using that assms(2) matcher_accepts_fits [OF that(3)] by auto
  then obtain m where m: "extract_abbreviation_expansion_pairs db s d = Inr m" "all_pairs ?P m"
    using extract_all_pairs [where P = ?P] by blast
  show ?thesis
    using loop_not_longer [OF assms(1) m(2), of 0 "[]" rate 0 "[]"] m(1)
    by (simp add: abbreviate_snippet_def)
qed

theorem abbreviation_not_longer_witness:
  "valid_rng rng0
   \<and> list_all (\<lambda>p. snd p \<noteq> [] \<and> length (fst p) \<le> length (snd p))
         (get_dictionary_pairs example_dictionary)
   \<and> (\<exists>m t reps. extract_abbreviation_expansion_pairs example_db example_snippet example_dictionary = Inr m
           \<and> abbreviate_snippet example_snippet m 1 rng0 = Some (Inr (t, reps))
           \<and> length t \<le> length example_snippet)"
proof -
  have v: "valid_rng rng0"
    by (simp add: valid_rng_def rng0_def)
  have d: "\<forall>p\<in>set (get_dictionary_pairs example_dictionary).
             snd p \<noteq> [] \<and> length (fst p) \<le> length (snd p)"
    by (simp add: get_dictionary_pairs_def example_dictionary_def lit_def)
  have e: "list_all (\<lambda>p. snd p \<noteq> [] \<and> length (fst p) \<le> length (snd p))
             (get_dictionary_pairs example_dictionary)"
    using d by (simp add: list_all_iff)
  show ?thesis
    using v e abbreviation_not_longer [OF v d, of example_db example_snippet 1] by (intro conjI) assumption+
qed

text \<open>
  Claim C8, as stated: at rate 0 every snippet with at least 3 tokens gives one record.
  The filter counts the pieces of a split on the space character: the snippet
  \<open>the<TAB>patient<TAB>sleeps\<close> has three tokens between whitespace, is one piece, and
  gives no record at rate 0.
\<close>

theorem rate_zero_tab_counterexample:
  "whitespace_tokens tab_snippet = [lit ''the'', lit ''patient'', lit ''sleeps'']
   \<and> split_on space tab_snippet = [tab_snippet]
   \<and> reverse_substitution example_db (test_key, tab_snippet) 0 example_dictionary rng0 =
       Some (Inr [])"
proof -
  have "whitespace_tokens tab_snippet = [lit ''the'', lit ''patient'', lit ''sleeps'']"
    by (simp add: whitespace_tokens_def tab_snippet_def lit_def tab_def is_whitespace_def)
  moreover have "split_on space tab_snippet = [tab_snippet]"
    by code_simp
  ultimately show ?thesis
    using tab_snippet_any_database [of example_db] by simp
qed

text \<open>
  Claim C8, amended. At rate 0, for every dictionary and all draws, a snippet that splits
  on the space character into at least 3 pieces (every space cuts, empty pieces count)
  gives exactly one record, under the pair of empty strings, and the abbreviated snippet
  of the record is the snippet itself.
\<close>

theorem rate_zero_one_sentinel_record:
  assumes "valid_rng r" and "3 \<le> length (split_on space s)"
  shows "reverse_substitution db (key, s) 0 d r =
     Some (Inr [(([], []), (key, \<lparr>original_snippet = s, abbreviated_snippet = s\<rparr>))])"
  using assms(2)
  by (simp add: reverse_substitution_records [OF abbreviation_of_rate_zero [OF assms(1)]])

theorem rate_zero_one_sentinel_record_witness:
  "valid_rng rng0 \<and> 3 \<le> length (split_on space example_snippet)
   \<and> reverse_substitution example_db (test_key, example_snippet) 0 example_dictionary rng0 =
       Some (Inr [(([], []),
                   (test_key, \<lparr>original_snippet = example_snippet, abbreviated_snippet = example_snippet\<rparr>))])"
proof -
  have v: "valid_rng rng0"
    by (simp add: valid_rng_def rng0_def)
  have l: "3 \<le> length (split_on space example_snippet)"
    by code_simp
  show ?thesis
    using v l rate_zero_one_sentinel_record [OF v l, of example_db test_key example_dictionary] by simp
qed



subsection \<open>Properties of the sampler\<close>

lemma sample_loop_take: "0 < limit \<Longrightarrow> sample_loop xs limit = take (nat limit) xs"
proof (induction xs arbitrary: limit)
  case Nil
  then show ?case by simp
next
  case (Cons x xs)
  show ?case
  proof (cases "limit - 1 \<le> 0")
    case True
    with Cons.prems have "limit = 1" by simp
    then show ?thesis by simp
  next
    case False
    then have pos: "0 < limit - 1" by simp
    have "nat limit = Suc (nat (limit - 1))"
      using pos by simp
    then show ?thesis
      using False Cons.IH [OF pos] by simp
  qed
qed

text \<open>
  Claim C7. With a cap that is not negative, a cap of 0 yields no record for the group,
  and a positive cap \<open>N\<close> yields the first \<open>min N (size of the group)\<close> records of the group
  in their order, never more than \<open>N\<close>.
\<close>

theorem sample_cap:
  assumes "0 \<le> n"
  shows "sample_snippets_by_replacement (k, snippets) n = take (nat n) snippets
       \<and> length (sample_snippets_by_replacement (k, snippets) n) = min (nat n) (length snippets)
       \<and> int (length (sample_snippets_by_replacement (k, snippets) n)) \<le> n
       \<and> sample_snippets_by_replacement (k, snippets) 0 = []"
proof -
  have eq: "sample_snippets_by_replacement (k, snippets) n = take (nat n) snippets"
    using assms by (cases "n = 0") (simp_all add: sample_snippets_by_replacement_def sample_loop_take)
  have zero: "sample_snippets_by_replacement (k, snippets) 0 = []"
    by (simp add: sample_snippets_by_replacement_def)
  show ?thesis
    using assms zero by (simp add: eq min.commute)
qed

theorem sample_cap_witness:
  "(0::int) \<le> 2
   \<and> sample_snippets_by_replacement example_group 2 = take 2 (snd example_group)
   \<and> length (sample_snippets_by_replacement example_group 2) = 2"
  using sample_cap [of 2 "fst example_group" "snd example_group"]
  by (simp add: example_group_def)

text \<open>
  Claim C10. With a negative cap and a group that is not empty, the sampler yields exactly
  one record, the first of the group; it neither yields nothing nor raises.
\<close>

theorem sample_negative_cap:
  assumes "n < 0" and "snippets \<noteq> []"
  shows "sample_snippets_by_replacement (k, snippets) n = [hd snippets]"
  using assms by (cases snippets) (simp_all add: sample_snippets_by_replacement_def)

theorem sample_negative_cap_witness:
  "(-3::int) < 0 \<and> snd example_group \<noteq> []
   \<and> sample_snippets_by_replacement example_group (-3) =
       [(lit ''k0'', \<lparr>original_snippet = lit ''a patient b'', abbreviated_snippet = lit ''a pt b''\<rparr>)]"
  using sample_negative_cap [of "-3" "snd example_group" "fst example_group"]
  by (simp add: example_group_def)

subsection \<open>Properties of the configuration\<close>

text \<open>
  Claim C3, as stated: a configuration with \<open>abbreviation_rate\<close> outside \<open>[0, 1]\<close>,
  \<open>max_sentences_per_snippet < 1\<close> or a negative \<open>num_snippets_per_replacement\<close> is
  rejected when it is constructed. The constructor does not look at the three values:
  with rate 2, no sentence and a cap of -1 the configuration is built.
\<close>

theorem config_rejects_counterexample:
  "C4WSRSConfig_init accepting_super_init (lit ''default'') 0 2 (-1) () =
     Inr \<lparr>base = lit ''default'', max_sentences_per_snippet = 0,
          abbreviation_rate = 2, num_snippets_per_replacement = -1\<rparr>"
  by (simp add: C4WSRSConfig_init_def accepting_super_init_def)

text \<open>
  Claim C3, amended. The constructor validates none of the three values: whenever the
  constructor of the base class accepts the name and the keyword arguments, the
  configuration is built and holds the three values as they were given, whatever they
  are; the only errors are those of the base class.
\<close>

theorem config_stores_unchecked:
  "(super_init name kwargs = Inr b \<longrightarrow>
      (\<exists>c. C4WSRSConfig_init super_init name m r n kwargs = Inr c
           \<and> base c = b \<and> max_sentences_per_snippet c = m
           \<and> abbreviation_rate c = r \<and> num_snippets_per_replacement c = n))
   \<and> (super_init name kwargs = Inl e \<longrightarrow>
        C4WSRSConfig_init super_init name m r n kwargs = Inl e)"
  by (simp add: C4WSRSConfig_init_def)

theorem config_stores_unchecked_witness:
  "accepting_super_init (lit ''default'') () = Inr (lit ''default'')
   \<and> (\<exists>c. C4WSRSConfig_init accepting_super_init (lit ''default'') 0 2 (-1) () = Inr c
          \<and> max_sentences_per_snippet c = 0
          \<and> abbreviation_rate c = 2 \<and> num_snippets_per_replacement c = -1)"
proof -
  have h: "accepting_super_init (lit ''default'') () = Inr (lit ''default'')"
    by (simp add: accepting_super_init_def)
  show ?thesis
    using h config_stores_unchecked
      [of accepting_super_init "(lit ''default'')" "()" "(lit ''default'')" 0 2 "-1" IndexError]
    by auto
qed

subsection \<open>Properties of the dictionary loaders\<close>

text \<open>
  Claim C5 on the loader that the pipeline runs: the dictionary has no expansion twice
  under one abbreviation. \<^verbatim>\<open>_split_generators\<close> appends every row, so a row that occurs
  twice in the file gives its expansion twice.
\<close>

theorem split_generators_keeps_duplicates:
  "split_generators_dict [[lit ''pt'', lit ''patient''], [lit ''pt'', lit ''patient'']] =
     Inr [(lit ''pt'', [lit ''patient'', lit ''patient''])]"
  by (simp add: split_generators_dict_def defaultdict_get_def)

text \<open>The helper \<^verbatim>\<open>_convert_abbrev_expansion_table_to_dict\<close> does what the claim says.\<close>

lemma distinct_expansions_update:
  assumes "distinct_expansions d" and "distinct v"
  shows "distinct_expansions (AList.update k v d)"
  unfolding distinct_expansions_def
proof (intro allI impI)
  fix k' v'
  assume "map_of (AList.update k v d) k' = Some v'"
  then have "v' = v \<or> map_of d k' = Some v'"
    by (cases "k' = k") (simp_all add: update_conv')
  then show "distinct v'"
    using assms unfolding distinct_expansions_def by blast
qed

lemma convert_loop_distinct:
  "distinct_expansions d \<Longrightarrow> \<exists>d'. convert_loop rows d = Inr d' \<and> distinct_expansions d'"
proof (induction rows arbitrary: d)
  case Nil
  then show ?case by simp
next
  case (Cons row rows)
  obtain a e where row: "row = (a, e)" by (cases row)
  define d1 where "d1 = (if map_of d a = None then AList.update a [] d else d)"
  have d1: "distinct_expansions d1"
    unfolding d1_def using Cons.prems distinct_expansions_update [of d "[]" a] by (cases "map_of d a = None") simp_all
  have "map_of d1 a \<noteq> None"
    unfolding d1_def by (cases "map_of d a = None") (simp_all add: update_conv')
  then obtain es where es: "map_of d1 a = Some es" by blast
  define d2 where "d2 = (if e \<notin> set es then AList.update a (es @ [e]) d1 else d1)"
  have "distinct es"
    using d1 es unfolding distinct_expansions_def by blast
  then have "distinct_expansions d2"
    unfolding d2_def using d1 distinct_expansions_update [of d1 "es @ [e]" a] by (cases "e \<in> set es") simp_all
  from Cons.IH [OF this] obtain d' where d': "convert_loop rows d2 = Inr d'" "distinct_expansions d'"
    by blast
  have "convert_loop (row # rows) d = convert_loop rows d2"
    unfolding row convert_loop.simps Let_def d1_def [symmetric] es d2_def by simp
  then show ?case using d' by simp
qed

lemma convert_table_distinct:
  "\<exists>d. convert_abbrev_expansion_table_to_dict df = Inr d \<and> distinct_expansions d"
  unfolding convert_abbrev_expansion_table_to_dict_def
  by (rule convert_loop_distinct) (simp add: distinct_expansions_def)

lemma convert_table_example:
  "convert_abbrev_expansion_table_to_dict [(lit ''pt'', lit ''patient''), (lit ''pt'', lit ''patient'')] =
     Inr [(lit ''pt'', [lit ''patient''])]"
  by (simp add: convert_abbrev_expansion_table_to_dict_def)

text \<open>
  The helper gives each abbreviation of the table its expansions in first-seen order,
  each once.
\<close>

lemma filter_fst_absent:
  "a \<notin> fst ` set rows \<Longrightarrow> filter (\<lambda>row. fst row = a) rows = []"
  by (induction rows) auto

lemma convert_loop_lookup:
  "\<exists>d'. convert_loop rows d = Inr d'
        \<and> map_of d' a =
            (if a \<in> fst ` set rows
             then Some (foldl append_new (defaultdict_get d a)
                          (map snd (filter (\<lambda>row. fst row = a) rows)))
             else map_of d a)"
proof (induction rows arbitrary: d)
  case Nil
  show ?case by simp
next
  case (Cons row rows)
  obtain a0 e0 where row: "row = (a0, e0)" by (cases row)
  define d1 where "d1 = (if map_of d a0 = None then AList.update a0 [] d else d)"
  have d1_a0: "map_of d1 a0 = Some (defaultdict_get d a0)"
    unfolding d1_def defaultdict_get_def
    by (cases "map_of d a0") (simp_all add: update_conv')
  have d1_other: "map_of d1 k = map_of d k" if "k \<noteq> a0" for k
    unfolding d1_def using that by (cases "map_of d a0 = None") (simp_all add: update_conv')
  define d2 where
    "d2 = (if e0 \<notin> set (defaultdict_get d a0)
           then AList.update a0 (defaultdict_get d a0 @ [e0]) d1 else d1)"
  have d2_a0: "map_of d2 a0 = Some (append_new (defaultdict_get d a0) e0)"
    unfolding d2_def append_new_def using d1_a0
    by (cases "e0 \<in> set (defaultdict_get d a0)") (simp_all add: update_conv')
  have d2_other: "map_of d2 k = map_of d k" if "k \<noteq> a0" for k
    unfolding d2_def using that d1_other [OF that]
    by (cases "e0 \<in> set (defaultdict_get d a0)") (simp_all add: update_conv')
  have step: "convert_loop ((a0, e0) # rows) d = convert_loop rows d2"
    unfolding convert_loop.simps Let_def d1_def [symmetric] d1_a0 d2_def by simp
  obtain d' where d': "convert_loop rows d2 = Inr d'"
    and look: "map_of d' a =
            (if a \<in> fst ` set rows
             then Some (foldl append_new (defaultdict_get d2 a)
                          (map snd (filter (\<lambda>row. fst row = a) rows)))
             else map_of d2 a)"
    using Cons.IH [of d2] by blast
  show ?case
  proof (cases "a = a0")
    case True
    have "defaultdict_get d2 a = append_new (defaultdict_get d a) e0"
      using d2_a0 True by (simp add: defaultdict_get_def)
    then show ?thesis
      unfolding row step using d' look d2_a0 True by (simp add: filter_fst_absent)
  next
    case False
    have "defaultdict_get d2 a = defaultdict_get d a"
      using d2_other [OF False] by (simp add: defaultdict_get_def)
    then show ?thesis
      unfolding row step using d' look d2_other [OF False] False by simp
  qed
qed

lemma convert_table_first_seen:
  "\<exists>d. convert_abbrev_expansion_table_to_dict df = Inr d
       \<and> (\<forall>a. map_of d a =
              (if a \<in> fst ` set df
               then Some (first_seen (map snd (filter (\<lambda>row. fst row = a) df)))
               else None))"
proof -
  obtain d where d: "convert_loop df [] = Inr d"
    using convert_loop_lookup [of df "[]"] by blast
  have "map_of d a =
              (if a \<in> fst ` set df
               then Some (first_seen (map snd (filter (\<lambda>row. fst row = a) df)))
               else None)" for a
    using convert_loop_lookup [of df "[]" a] d
    by (simp add: first_seen_def defaultdict_get_def)
  then show ?thesis
    using d by (simp add: convert_abbrev_expansion_table_to_dict_def)
qed

lemma foldl_append_new_distinct:
  "distinct acc \<Longrightarrow> distinct (foldl append_new acc es)"
  by (induction es arbitrary: acc) (simp_all add: append_new_def)

lemma first_seen_distinct: "distinct (first_seen es)"
  by (simp add: first_seen_def foldl_append_new_distinct)

lemma foldl_append_new_set:
  "set (foldl append_new acc es) = set acc \<union> set es"
  by (induction es arbitrary: acc) (auto simp: append_new_def)

lemma first_seen_set: "set (first_seen es) = set es"
  by (simp add: first_seen_def foldl_append_new_set)

end
